theory Spec2Isabelle
  imports Main
begin

section \<open>The visualization organizer of nengo\_viz (viz.py)\<close>

text \<open>
  The theory embeds the two classes of \<^verbatim>\<open>nengo_viz/viz.py\<close>: \<^verbatim>\<open>Viz\<close>, the organizer of one
  model (template, build lock, dictionary of components waiting for a connection), and
  \<^verbatim>\<open>VizSim\<close>, one simulator attached to a page (constructor on the caller's thread, \<^verbatim>\<open>runner\<close>
  on a thread of its own).

  The methods that run to completion on one thread (\<^verbatim>\<open>add\<close>, \<^verbatim>\<open>pop_component\<close>, \<^verbatim>\<open>slider\<close>,
  \<^verbatim>\<open>value\<close>, \<^verbatim>\<open>finish\<close>) are functions on the object's state. The constructor of \<^verbatim>\<open>VizSim\<close> and
  \<^verbatim>\<open>runner\<close> are executed statement by statement, so that the statements of several sessions,
  and calls made by other threads, can interleave: every \<^verbatim>\<open>VizSim\<close> carries the control point
  of the code that runs on its behalf, and a schedule (a list of actions) drives the whole.
\<close>

subsection \<open>Values and component specifications\<close>

text \<open>Python values as far as the code handles them: arguments are passed through untouched,
  \<^verbatim>\<open>None\<close> is what a method without a \<^verbatim>\<open>return\<close> gives back.\<close>

datatype pyval = PyNone | PyInt int | PyStr string

text \<open>The component classes named in viz.py (module \<^verbatim>\<open>nengo_viz.components\<close>).\<close>

datatype kind = SimControl | Slider | Value

text \<open>An entry of \<^verbatim>\<open>Viz.template\<close>: the tuple \<^verbatim>\<open>(cls, args, kwargs)\<close>.\<close>

type_synonym spec = "kind \<times> pyval list \<times> (string \<times> pyval) list"

text \<open>
  A component object. \<^verbatim>\<open>ident\<close> is what Python's \<^verbatim>\<open>id(c)\<close> returns; \<^verbatim>\<open>spec_of\<close> and \<^verbatim>\<open>owner\<close>
  record the class and arguments it was built from and the \<^verbatim>\<open>VizSim\<close> passed as first argument
  (the index of the session in the list of sessions).
\<close>

record component =
  ident :: nat
  spec_of :: spec
  owner :: nat

text \<open>
  Modelled from the spec: the constructors of \<^verbatim>\<open>nengo_viz.components\<close> (the call
  \<^verbatim>\<open>cls(self, *args, **kwargs)\<close> of line 26) are not part of viz.py. The spec says of a component
  instance that it is ``created from a ComponentSpec plus a back-reference to its owning
  Session'' and ``identified by a process-unique opaque id (identity-based, not
  content-based)''. The first argument is the identity the runtime gives the new object.
\<close>

definition new_component :: "nat \<Rightarrow> nat \<Rightarrow> spec \<Rightarrow> component" where
  "new_component i s sp = \<lparr>ident = i, spec_of = sp, owner = s\<rparr>"

subsection \<open>class Viz\<close>

text \<open>
  The fields of \<^verbatim>\<open>Viz\<close> that viz.py reads or writes: \<^verbatim>\<open>template\<close>, \<^verbatim>\<open>lock\<close> (a \<^verbatim>\<open>threading.Lock\<close>:
  \<open>True\<close> when locked) and the dictionary \<^verbatim>\<open>components\<close> (here \<open>viz_components\<close>, since
  \<^verbatim>\<open>VizSim\<close> has a field of the same name). \<^verbatim>\<open>model\<close>, \<^verbatim>\<open>dt\<close> and \<^verbatim>\<open>Simulator\<close> are only handed to
  the simulator and are left out.
\<close>

record viz =
  template :: "spec list"
  lock :: bool
  viz_components :: "nat \<rightharpoonup> component"

text \<open>\<^verbatim>\<open>Viz.__init__\<close> (lines 58-68).\<close>

definition Viz_init :: viz where
  "Viz_init = \<lparr>template = [(SimControl, [], [])], lock = False, viz_components = Map.empty\<rparr>"

text \<open>\<^verbatim>\<open>Viz.slider\<close> and \<^verbatim>\<open>Viz.value\<close> (lines 70-76): the returned pair is Python's return value
  and the object after the call.\<close>

definition slider :: "viz \<Rightarrow> pyval list \<Rightarrow> (string \<times> pyval) list \<Rightarrow> pyval \<times> viz" where
  "slider z args kwargs = (PyNone, z\<lparr>template := template z @ [(Slider, args, kwargs)]\<rparr>)"

definition value_graph :: "viz \<Rightarrow> pyval list \<Rightarrow> (string \<times> pyval) list \<Rightarrow> pyval \<times> viz" where
  "value_graph z args kwargs = (PyNone, z\<lparr>template := template z @ [(Value, args, kwargs)]\<rparr>)"

text \<open>\<^verbatim>\<open>Viz.add\<close> (lines 87-89): \<^verbatim>\<open>self.components[id(component)] = component\<close>, no \<^verbatim>\<open>return\<close>.\<close>

definition add :: "viz \<Rightarrow> component \<Rightarrow> pyval \<times> viz" where
  "add z c = (PyNone, z\<lparr>viz_components := (viz_components z)(ident c \<mapsto> c)\<rparr>)"

text \<open>\<^verbatim>\<open>Viz.pop_component\<close> (lines 91-102): the subscription of line 100 raises \<^verbatim>\<open>KeyError\<close>
  on a key that is not in the dictionary, before anything is changed.\<close>

datatype error = KeyError nat

definition pop_component :: "viz \<Rightarrow> nat \<Rightarrow> error + (component \<times> viz)" where
  "pop_component z i =
     (case viz_components z i of
        None \<Rightarrow> Inl (KeyError i)
      | Some c \<Rightarrow> Inr (c, z\<lparr>viz_components := (viz_components z)(i := None)\<rparr>))"



subsection \<open>class VizSim\<close>

text \<open>
  The control points of the code run for one \<^verbatim>\<open>VizSim\<close>: the statements of \<^verbatim>\<open>__init__\<close> from
  line 22 on (on the thread that called \<^verbatim>\<open>create_sim\<close>), then those of \<^verbatim>\<open>runner\<close> (on the new
  thread). The loops carry the position of their list iterator. \<open>Returned\<close>: \<^verbatim>\<open>runner\<close> has
  returned. \<open>Raised p\<close>: the statement at \<open>p\<close> raised an exception, which nothing in viz.py
  catches, so the call or thread has ended there.
\<close>

datatype point =
    Acquire                \<comment> \<open>line 22: \<^verbatim>\<open>self.viz.lock.acquire()\<close>\<close>
  | For_template nat       \<comment> \<open>lines 25-28: \<^verbatim>\<open>for cls, args, kwargs in self.viz.template\<close>\<close>
  | Start_thread           \<comment> \<open>line 31: \<^verbatim>\<open>thread.start_new_thread(self.runner, ())\<close>\<close>
  | Build                  \<comment> \<open>line 35: \<^verbatim>\<open>self.sim = self.viz.Simulator(...)\<close>\<close>
  | For_components nat     \<comment> \<open>lines 38-39: \<^verbatim>\<open>for c in self.components\<close>\<close>
  | Release                \<comment> \<open>line 41: \<^verbatim>\<open>self.viz.lock.release()\<close>\<close>
  | Set_building           \<comment> \<open>line 43: \<^verbatim>\<open>self.building = False\<close>\<close>
  | While_test             \<comment> \<open>line 46: \<^verbatim>\<open>while not self.finished\<close>\<close>
  | Sim_run                \<comment> \<open>line 47: \<^verbatim>\<open>self.sim.run(0.1, progress_bar=False)\<close>\<close>
  | Returned
  | Raised point

text \<open>
  The fields of \<^verbatim>\<open>VizSim\<close>. \<^verbatim>\<open>sim\<close> is \<open>None\<close> until line 35 has assigned it; the simulator is
  represented by the number of calls of \<^verbatim>\<open>run\<close> it has completed. \<open>undone\<close> is the log of the
  components whose \<^verbatim>\<open>remove_nengo_objects\<close> has returned, in the order of the calls (the
  method is external, the log is all the model keeps of it). \<open>pc\<close> is the control point.
  \<^verbatim>\<open>self.viz\<close> is the one organizer of the process; \<^verbatim>\<open>self.model\<close> and \<^verbatim>\<open>self.dt\<close> are only
  handed to the simulator and are left out.
\<close>

record vizsim =
  building :: bool
  components :: "component list"
  finished :: bool
  sim :: "nat option"
  undone :: "component list"
  pc :: point

text \<open>\<^verbatim>\<open>VizSim.__init__\<close>, lines 14-19: the fields of the new object, before line 22.\<close>

definition VizSim_new :: vizsim where
  "VizSim_new = \<lparr>building = True, components = [], finished = False, sim = None,
     undone = [], pc = Acquire\<rparr>"

text \<open>\<^verbatim>\<open>VizSim.finish\<close> (lines 49-50).\<close>

definition finish :: "vizsim \<Rightarrow> vizsim" where
  "finish v = v\<lparr>finished := True\<rparr>"

text \<open>
  One statement of \<^verbatim>\<open>__init__\<close> or \<^verbatim>\<open>runner\<close>, every external call in it returning normally.
  \<open>n\<close> is the identity the runtime would give the next object, \<open>s\<close> the session, \<open>z\<close> the
  organizer and \<open>v\<close> the session's fields; the result is the three after the statement, or
  \<open>None\<close> when the statement cannot run: \<^verbatim>\<open>acquire()\<close> on a locked lock blocks, and an ended
  thread has no next statement. The \<^verbatim>\<open>for\<close> loops read the list through an iterator, which
  looks at the list's current length each time. \<^verbatim>\<open>release()\<close> on an unlocked lock raises
  \<^verbatim>\<open>thread.error\<close>; \<^verbatim>\<open>self.sim.run\<close> needs \<^verbatim>\<open>self.sim\<close>.
\<close>

definition stmt :: "nat \<Rightarrow> nat \<Rightarrow> viz \<Rightarrow> vizsim \<Rightarrow> (viz \<times> vizsim \<times> nat) option" where
  "stmt n s z v =
     (case pc v of
        Acquire \<Rightarrow>
          if lock z then None
          else Some (z\<lparr>lock := True\<rparr>, v\<lparr>pc := For_template 0\<rparr>, n)
      | For_template i \<Rightarrow>
          if i < length (template z) then
            let c = new_component n s (template z ! i) in
            Some (snd (add z c), v\<lparr>components := components v @ [c], pc := For_template (Suc i)\<rparr>,
                  Suc n)
          else Some (z, v\<lparr>pc := Start_thread\<rparr>, n)
      | Start_thread \<Rightarrow> Some (z, v\<lparr>pc := Build\<rparr>, n)
      | Build \<Rightarrow> Some (z, v\<lparr>sim := Some 0, pc := For_components 0\<rparr>, n)
      | For_components i \<Rightarrow>
          if i < length (components v) then
            Some (z, v\<lparr>undone := undone v @ [components v ! i], pc := For_components (Suc i)\<rparr>, n)
          else Some (z, v\<lparr>pc := Release\<rparr>, n)
      | Release \<Rightarrow>
          if lock z then Some (z\<lparr>lock := False\<rparr>, v\<lparr>pc := Set_building\<rparr>, n)
          else Some (z, v\<lparr>pc := Raised Release\<rparr>, n)
      | Set_building \<Rightarrow> Some (z, v\<lparr>building := False, pc := While_test\<rparr>, n)
      | While_test \<Rightarrow> Some (z, v\<lparr>pc := (if finished v then Returned else Sim_run)\<rparr>, n)
      | Sim_run \<Rightarrow>
          (case sim v of
             None \<Rightarrow> Some (z, v\<lparr>pc := Raised Sim_run\<rparr>, n)
           | Some k \<Rightarrow> Some (z, v\<lparr>sim := Some (Suc k), pc := While_test\<rparr>, n))
      | Returned \<Rightarrow> None
      | Raised p \<Rightarrow> None)"

text \<open>
  The statements that call code outside viz.py, which may raise: a component's constructor
  (line 26), the simulator factory (line 35), \<^verbatim>\<open>remove_nengo_objects\<close> (line 39) and
  \<^verbatim>\<open>sim.run\<close> (line 47). viz.py has no \<^verbatim>\<open>try\<close>: the exception ends the call or the thread,
  and no field is changed.
\<close>

definition raises :: "viz \<Rightarrow> vizsim \<Rightarrow> vizsim option" where
  "raises z v =
     (case pc v of
        For_template i \<Rightarrow>
          if i < length (template z) then Some (v\<lparr>pc := Raised (For_template i)\<rparr>) else None
      | Build \<Rightarrow> Some (v\<lparr>pc := Raised Build\<rparr>)
      | For_components i \<Rightarrow>
          if i < length (components v) then Some (v\<lparr>pc := Raised (For_components i)\<rparr>) else None
      | Sim_run \<Rightarrow> Some (v\<lparr>pc := Raised Sim_run\<rparr>)
      | _ \<Rightarrow> None)"

subsection \<open>The process: one organizer, its sessions, the threads\<close>

text \<open>
  The organizer, the \<^verbatim>\<open>VizSim\<close> objects in the order of their creation (a session is named
  by its position in the list), and the identity the runtime gives the next component
  object. Python's \<^verbatim>\<open>id\<close> is unique among the objects alive at the same time; no object is
  freed here, so identities are handed out in increasing order and never again.
\<close>

record world =
  the_viz :: viz
  sims :: "vizsim list"
  next_ident :: nat

definition world_init :: world where
  "world_init = \<lparr>the_viz = Viz_init, sims = [], next_ident = 0\<rparr>"

text \<open>What the threads of the process can do next, as far as viz.py is concerned.\<close>

datatype action =
    Call_slider "pyval list" "(string \<times> pyval) list"
  | Call_value "pyval list" "(string \<times> pyval) list"
  | Call_create_sim        \<comment> \<open>a thread enters \<^verbatim>\<open>create_sim\<close>: lines 14-19 of \<^verbatim>\<open>VizSim.__init__\<close>\<close>
  | Step nat               \<comment> \<open>the next statement run for a session\<close>
  | Raise nat              \<comment> \<open>the external call of the next statement raises\<close>
  | Call_finish nat
  | Call_pop_component nat

definition step :: "nat \<Rightarrow> world \<Rightarrow> world option" where
  "step s w =
     (if s < length (sims w) then
        (case stmt (next_ident w) s (the_viz w) (sims w ! s) of
           None \<Rightarrow> None
         | Some (z, v, n) \<Rightarrow> Some (w\<lparr>the_viz := z, sims := (sims w)[s := v], next_ident := n\<rparr>))
      else None)"

fun exec :: "action \<Rightarrow> world \<Rightarrow> world option" where
  "exec (Call_slider args kwargs) w = Some (w\<lparr>the_viz := snd (slider (the_viz w) args kwargs)\<rparr>)"
| "exec (Call_value args kwargs) w =
     Some (w\<lparr>the_viz := snd (value_graph (the_viz w) args kwargs)\<rparr>)"
| "exec Call_create_sim w = Some (w\<lparr>sims := sims w @ [VizSim_new]\<rparr>)"
| "exec (Step s) w = step s w"
| "exec (Raise s) w =
     (if s < length (sims w) then
        (case raises (the_viz w) (sims w ! s) of
           None \<Rightarrow> None
         | Some v \<Rightarrow> Some (w\<lparr>sims := (sims w)[s := v]\<rparr>))
      else None)"
| "exec (Call_finish s) w =
     (if s < length (sims w) then Some (w\<lparr>sims := (sims w)[s := finish (sims w ! s)]\<rparr>)
      else None)"
| "exec (Call_pop_component i) w =
     (case pop_component (the_viz w) i of
        Inl e \<Rightarrow> Some w
      | Inr (c, z) \<Rightarrow> Some (w\<lparr>the_viz := z\<rparr>))"

text \<open>A schedule: the actions in the order in which they happen. \<open>None\<close> when one of them
  cannot happen in the state it meets.\<close>

fun run :: "action list \<Rightarrow> world \<Rightarrow> world option" where
  "run [] w = Some w"
| "run (a # as) w = (case exec a w of None \<Rightarrow> None | Some w' \<Rightarrow> run as w')"

text \<open>
  \<^verbatim>\<open>Viz.create_sim\<close> (lines 83-85) with no other thread running in between: the fields are
  initialised, then the statements of \<^verbatim>\<open>__init__\<close> run one after the other (line 22, one turn
  of the loop per template entry, the end of the loop, line 31), after which \<^verbatim>\<open>__init__\<close> and
  \<^verbatim>\<open>create_sim\<close> return the new object. \<open>None\<close>: the call does not return, because line 22
  blocks.
\<close>

definition create_sim :: "world \<Rightarrow> world option" where
  "create_sim w =
     run (Call_create_sim # replicate (length (template (the_viz w)) + 3) (Step (length (sims w)))) w"

subsection \<open>Holding the build lock\<close>

text \<open>
  A \<^verbatim>\<open>threading.Lock\<close> does not record who locked it. A session holds the build lock from the
  moment its line 22 has returned until its line 41 has run: at the control points in
  between, and at an exception raised there (the exception ends the call or the thread,
  line 41 is never reached, or has failed).
\<close>

fun holds_lock :: "point \<Rightarrow> bool" where
  "holds_lock (For_template i) = True"
| "holds_lock Start_thread = True"
| "holds_lock Build = True"
| "holds_lock (For_components i) = True"
| "holds_lock Release = True"
| "holds_lock (Raised p) = holds_lock p"
| "holds_lock _ = False"

text \<open>What the fields of a \<^verbatim>\<open>VizSim\<close> are at each control point.\<close>

fun consistent :: "point \<Rightarrow> vizsim \<Rightarrow> bool" where
  "consistent Acquire v = (building v \<and> sim v = None \<and> undone v = [] \<and> components v = [])"
| "consistent (For_template i) v = (building v \<and> sim v = None \<and> undone v = [])"
| "consistent Start_thread v = (building v \<and> sim v = None \<and> undone v = [])"
| "consistent Build v = (building v \<and> sim v = None \<and> undone v = [])"
| "consistent (For_components i) v =
     (building v \<and> sim v = Some 0 \<and> i \<le> length (components v) \<and> undone v = take i (components v))"
| "consistent Release v = (building v \<and> sim v = Some 0 \<and> undone v = components v)"
| "consistent Set_building v = (building v \<and> sim v = Some 0 \<and> undone v = components v)"
| "consistent While_test v = (\<not> building v \<and> sim v \<noteq> None \<and> undone v = components v)"
| "consistent Sim_run v = (\<not> building v \<and> sim v \<noteq> None \<and> undone v = components v)"
| "consistent Returned v = (\<not> building v \<and> sim v \<noteq> None \<and> undone v = components v)"
| "consistent (Raised p) v = consistent p v"

text \<open>Session \<open>s\<close> of the process holds the lock.\<close>

definition holder :: "world \<Rightarrow> nat \<Rightarrow> bool" where
  "holder w s = (s < length (sims w) \<and> holds_lock (pc (sims w ! s)))"

text \<open>The lock is locked exactly when some session holds it, and no two sessions hold it.\<close>

definition mutex :: "world \<Rightarrow> bool" where
  "mutex w = ((lock (the_viz w) \<longleftrightarrow> (\<exists>s. holder w s)) \<and>
              (\<forall>s t. holder w s \<and> holder w t \<longrightarrow> s = t))"

definition sound :: "world \<Rightarrow> bool" where
  "sound w = (mutex w \<and> (\<forall>s<length (sims w). consistent (pc (sims w ! s)) (sims w ! s)))"

text \<open>The statements that change the model: a component's constructor, the build of the
  simulator, and \<^verbatim>\<open>remove_nengo_objects\<close>.\<close>

fun mutating :: "point \<Rightarrow> bool" where
  "mutating (For_template i) = True"
| "mutating Build = True"
| "mutating (For_components i) = True"
| "mutating _ = False"

subsection \<open>Example runs\<close>

text \<open>Two calls of \<^verbatim>\<open>create_sim\<close>: the first session has the lock and has instantiated the
  control component, the second is at line 22.\<close>

definition two_sessions :: world where
  "two_sessions =
     \<lparr>the_viz = \<lparr>template = [(SimControl, [], [])], lock = True,
        viz_components = [0 \<mapsto> \<lparr>ident = 0, spec_of = (SimControl, [], []), owner = 0\<rparr>]\<rparr>,
      sims = [\<lparr>building = True,
               components = [\<lparr>ident = 0, spec_of = (SimControl, [], []), owner = 0\<rparr>],
               finished = False, sim = None, undone = [], pc = For_template 1\<rparr>,
              VizSim_new],
      next_ident = 1\<rparr>"

text \<open>One session whose \<^verbatim>\<open>create_sim\<close> has returned: the thread is started, the build has not
  begun. And the same session once \<^verbatim>\<open>runner\<close> has reached its loop.\<close>

definition one_started :: world where
  "one_started =
     \<lparr>the_viz = \<lparr>template = [(SimControl, [], [])], lock = True,
        viz_components = [0 \<mapsto> \<lparr>ident = 0, spec_of = (SimControl, [], []), owner = 0\<rparr>]\<rparr>,
      sims = [\<lparr>building = True,
               components = [\<lparr>ident = 0, spec_of = (SimControl, [], []), owner = 0\<rparr>],
               finished = False, sim = None, undone = [], pc = Build\<rparr>],
      next_ident = 1\<rparr>"

definition one_running :: world where
  "one_running =
     \<lparr>the_viz = \<lparr>template = [(SimControl, [], [])], lock = False,
        viz_components = [0 \<mapsto> \<lparr>ident = 0, spec_of = (SimControl, [], []), owner = 0\<rparr>]\<rparr>,
      sims = [\<lparr>building = False,
               components = [\<lparr>ident = 0, spec_of = (SimControl, [], []), owner = 0\<rparr>],
               finished = False, sim = Some 0,
               undone = [\<lparr>ident = 0, spec_of = (SimControl, [], []), owner = 0\<rparr>],
               pc = While_test\<rparr>],
      next_ident = 1\<rparr>"

text \<open>The first session step by step: created, with the lock, after one turn of the loop of
  \<^verbatim>\<open>__init__\<close>, and at line 41.\<close>

definition one_created :: world where
  "one_created = \<lparr>the_viz = Viz_init, sims = [VizSim_new], next_ident = 0\<rparr>"

definition one_locked :: world where
  "one_locked =
     \<lparr>the_viz = \<lparr>template = [(SimControl, [], [])], lock = True, viz_components = Map.empty\<rparr>,
      sims = [\<lparr>building = True, components = [], finished = False, sim = None, undone = [],
               pc = For_template 0\<rparr>],
      next_ident = 0\<rparr>"

definition one_instantiated :: world where
  "one_instantiated =
     \<lparr>the_viz = \<lparr>template = [(SimControl, [], [])], lock = True,
        viz_components = [0 \<mapsto> \<lparr>ident = 0, spec_of = (SimControl, [], []), owner = 0\<rparr>]\<rparr>,
      sims = [\<lparr>building = True,
               components = [\<lparr>ident = 0, spec_of = (SimControl, [], []), owner = 0\<rparr>],
               finished = False, sim = None, undone = [], pc = For_template 1\<rparr>],
      next_ident = 1\<rparr>"

definition one_releasing :: world where
  "one_releasing =
     \<lparr>the_viz = \<lparr>template = [(SimControl, [], [])], lock = True,
        viz_components = [0 \<mapsto> \<lparr>ident = 0, spec_of = (SimControl, [], []), owner = 0\<rparr>]\<rparr>,
      sims = [\<lparr>building = True,
               components = [\<lparr>ident = 0, spec_of = (SimControl, [], []), owner = 0\<rparr>],
               finished = False, sim = Some 0,
               undone = [\<lparr>ident = 0, spec_of = (SimControl, [], []), owner = 0\<rparr>],
               pc = Release\<rparr>],
      next_ident = 1\<rparr>"

definition one_released :: world where
  "one_released =
     \<lparr>the_viz = \<lparr>template = [(SimControl, [], [])], lock = False,
        viz_components = [0 \<mapsto> \<lparr>ident = 0, spec_of = (SimControl, [], []), owner = 0\<rparr>]\<rparr>,
      sims = [\<lparr>building = True,
               components = [\<lparr>ident = 0, spec_of = (SimControl, [], []), owner = 0\<rparr>],
               finished = False, sim = Some 0,
               undone = [\<lparr>ident = 0, spec_of = (SimControl, [], []), owner = 0\<rparr>],
               pc = Set_building\<rparr>],
      next_ident = 1\<rparr>"

subsection \<open>The calling path as a whole\<close>

text \<open>The components the loop of lines 25-28 makes from a list of template entries for
  session \<open>s\<close>, the first with identity \<open>n\<close>, and the organizer after \<^verbatim>\<open>add\<close> has been called
  on each of a list of components.\<close>

fun instantiate :: "nat \<Rightarrow> nat \<Rightarrow> spec list \<Rightarrow> component list" where
  "instantiate n s [] = []"
| "instantiate n s (sp # sps) = new_component n s sp # instantiate (Suc n) s sps"

fun add_all :: "viz \<Rightarrow> component list \<Rightarrow> viz" where
  "add_all z [] = z"
| "add_all z (c # cs) = add_all (snd (add z c)) cs"

subsection \<open>Ended threads\<close>

text \<open>The thread of a session has ended: \<^verbatim>\<open>runner\<close> has returned, or an exception has ended the
  call or the thread.\<close>

fun ended :: "point \<Rightarrow> bool" where
  "ended Returned = True"
| "ended (Raised p) = True"
| "ended _ = False"

text \<open>The first session after its simulator factory has raised at line 35, and a second
  call of \<^verbatim>\<open>create_sim\<close> made after \<^verbatim>\<open>one_started\<close>, at line 22.\<close>

definition build_failed :: world where
  "build_failed =
     \<lparr>the_viz = \<lparr>template = [(SimControl, [], [])], lock = True,
        viz_components = [0 \<mapsto> \<lparr>ident = 0, spec_of = (SimControl, [], []), owner = 0\<rparr>]\<rparr>,
      sims = [\<lparr>building = True,
               components = [\<lparr>ident = 0, spec_of = (SimControl, [], []), owner = 0\<rparr>],
               finished = False, sim = None, undone = [], pc = Raised Build\<rparr>],
      next_ident = 1\<rparr>"

definition second_called :: world where
  "second_called =
     \<lparr>the_viz = \<lparr>template = [(SimControl, [], [])], lock = True,
        viz_components = [0 \<mapsto> \<lparr>ident = 0, spec_of = (SimControl, [], []), owner = 0\<rparr>]\<rparr>,
      sims = [\<lparr>building = True,
               components = [\<lparr>ident = 0, spec_of = (SimControl, [], []), owner = 0\<rparr>],
               finished = False, sim = None, undone = [], pc = Build\<rparr>,
              VizSim_new],
      next_ident = 1\<rparr>"

subsection \<open>Simulation steps\<close>







subsection \<open>Constructed sessions\<close>

text \<open>The loop of lines 25-28 of a session is over: its component list is complete. After
  line 31 the thread is started and \<^verbatim>\<open>create_sim\<close> returns the session.\<close>

fun constructed :: "point \<Rightarrow> bool" where
  "constructed Acquire = False"
| "constructed (For_template i) = False"
| "constructed (Raised p) = constructed p"
| "constructed _ = True"


text \<open>A slider for a node, as a user would configure it, and the first session with the
  organizer configured after it was created.\<close>

definition configured_later :: world where
  "configured_later =
     \<lparr>the_viz = \<lparr>template = [(SimControl, [], []), (Slider, [PyStr ''node''], [])], lock = True,
        viz_components = [0 \<mapsto> \<lparr>ident = 0, spec_of = (SimControl, [], []), owner = 0\<rparr>]\<rparr>,
      sims = [\<lparr>building = True,
               components = [\<lparr>ident = 0, spec_of = (SimControl, [], []), owner = 0\<rparr>],
               finished = False, sim = Some 0, undone = [], pc = For_components 0\<rparr>],
      next_ident = 1\<rparr>"

subsection \<open>Identities in use\<close>


subsection \<open>Template fidelity\<close>





subsection \<open>Counting successful claims\<close>



section \<open>Properties\<close>

subsection \<open>The dictionary of waiting components\<close>









subsection \<open>Invariants of the process\<close>

lemma stmt_consistent:
  "stmt n s z v = Some (z', v', n') \<Longrightarrow> consistent (pc v) v \<Longrightarrow> consistent (pc v') v'"
  by (cases "pc v") (auto simp: stmt_def Let_def take_Suc_conv_app_nth split: if_splits option.splits)

lemma stmt_lock:
  "stmt n s z v = Some (z', v', n') \<Longrightarrow>
     (pc v = Acquire \<and> \<not> lock z \<and> lock z' \<and> holds_lock (pc v')) \<or>
     (pc v = Release \<and> lock z \<and> \<not> lock z' \<and> \<not> holds_lock (pc v')) \<or>
     (lock z' = lock z \<and> holds_lock (pc v') = holds_lock (pc v))"
  by (cases "pc v") (auto simp: stmt_def Let_def add_def split: if_splits option.splits)

lemma raises_consistent:
  "raises z v = Some v' \<Longrightarrow> consistent (pc v) v \<Longrightarrow> consistent (pc v') v'"
  by (cases "pc v") (auto simp: raises_def split: if_splits)

lemma raises_lock:
  "raises z v = Some v' \<Longrightarrow> holds_lock (pc v') = holds_lock (pc v)"
  by (cases "pc v") (auto simp: raises_def split: if_splits)

lemma holder_update:
  "s < length (sims w) \<Longrightarrow> sims w' = (sims w)[s := v'] \<Longrightarrow>
     holder w' t = (if t = s then holds_lock (pc v') else holder w t)"
  by (auto simp: holder_def nth_list_update)

lemma mutex_step:
  assumes "mutex w" and "step s w = Some w'"
  shows "mutex w'"
proof -
  from assms(2) obtain z' v' n' where s: "s < length (sims w)"
    and st: "stmt (next_ident w) s (the_viz w) (sims w ! s) = Some (z', v', n')"
    and w': "w' = w\<lparr>the_viz := z', sims := (sims w)[s := v'], next_ident := n'\<rparr>"
    by (auto simp: step_def split: if_splits option.splits)
  from w' have sims: "sims w' = (sims w)[s := v']" and z': "the_viz w' = z'" by simp_all
  have h: "\<And>t. holder w' t = (if t = s then holds_lock (pc v') else holder w t)"
    using holder_update [OF s sims] .
  have hs: "holder w s = holds_lock (pc (sims w ! s))" using s by (simp add: holder_def)
  from stmt_lock [OF st] show ?thesis
  proof (elim disjE conjE)
    assume a: "pc (sims w ! s) = Acquire" "\<not> lock (the_viz w)" "lock z'" "holds_lock (pc v')"
    with assms(1) have "\<And>t. \<not> holder w t" by (auto simp: mutex_def)
    with a show ?thesis by (auto simp: mutex_def h z')
  next
    assume a: "pc (sims w ! s) = Release" "lock (the_viz w)" "\<not> lock z'" "\<not> holds_lock (pc v')"
    with hs have "holder w s" by simp
    with assms(1) have "\<And>t. holder w t \<Longrightarrow> t = s" by (auto simp: mutex_def)
    with a show ?thesis by (auto simp: mutex_def h z')
  next
    assume a: "lock z' = lock (the_viz w)" "holds_lock (pc v') = holds_lock (pc (sims w ! s))"
    with hs have "\<And>t. holder w' t = holder w t" by (simp add: h)
    with a assms(1) show ?thesis by (simp add: mutex_def z')
  qed
qed

lemma consistent_finish: "consistent p (finish v) = consistent p v"
  by (induction p) (simp_all add: finish_def)

lemma consistent_new: "consistent (pc VizSim_new) VizSim_new"
  by (simp add: VizSim_new_def)

lemma holder_same:
  "sims w' = sims w \<Longrightarrow> holder w' t = holder w t"
  by (simp add: holder_def)

lemma holder_create:
  "holder (w\<lparr>sims := sims w @ [VizSim_new]\<rparr>) t = holder w t"
  by (auto simp: holder_def nth_append VizSim_new_def)

lemma mutex_cong:
  "lock (the_viz w') = lock (the_viz w) \<Longrightarrow> (\<And>t. holder w' t = holder w t) \<Longrightarrow>
     mutex w' = mutex w"
  by (simp add: mutex_def)

lemma step_sims:
  "step s w = Some w' \<Longrightarrow>
     s < length (sims w) \<and>
     (\<exists>z v n. stmt (next_ident w) s (the_viz w) (sims w ! s) = Some (z, v, n) \<and>
        w' = w\<lparr>the_viz := z, sims := (sims w)[s := v], next_ident := n\<rparr>)"
  by (auto simp: step_def split: if_splits option.splits)

lemma consistent_step:
  assumes "\<forall>t<length (sims w). consistent (pc (sims w ! t)) (sims w ! t)" and "step s w = Some w'"
  shows "\<forall>t<length (sims w'). consistent (pc (sims w' ! t)) (sims w' ! t)"
proof -
  from step_sims [OF assms(2)] obtain z v n where s: "s < length (sims w)"
    and st: "stmt (next_ident w) s (the_viz w) (sims w ! s) = Some (z, v, n)"
    and w': "w' = w\<lparr>the_viz := z, sims := (sims w)[s := v], next_ident := n\<rparr>"
    by blast
  from assms(1) s have "consistent (pc (sims w ! s)) (sims w ! s)" by simp
  with st have "consistent (pc v) v" by (rule stmt_consistent)
  with assms(1) w' s show ?thesis by (auto simp: nth_list_update)
qed

lemma sound_exec:
  assumes "sound w" and "exec a w = Some w'"
  shows "sound w'"
proof (cases a)
  case (Call_slider args kwargs)
  with assms(2) have "sims w' = sims w" "lock (the_viz w') = lock (the_viz w)"
    by (auto simp: slider_def)
  with assms(1) show ?thesis
    using mutex_cong [of w' w] holder_same [of w' w] by (simp add: sound_def)
next
  case (Call_value args kwargs)
  with assms(2) have "sims w' = sims w" "lock (the_viz w') = lock (the_viz w)"
    by (auto simp: value_graph_def)
  with assms(1) show ?thesis
    using mutex_cong [of w' w] holder_same [of w' w] by (simp add: sound_def)
next
  case Call_create_sim
  with assms(2) have w': "w' = w\<lparr>sims := sims w @ [VizSim_new]\<rparr>" by simp
  then have "mutex w' = mutex w"
    using mutex_cong [of w' w] holder_create [of w] by simp
  moreover have "\<forall>t<length (sims w'). consistent (pc (sims w' ! t)) (sims w' ! t)"
    using assms(1) w' consistent_new by (auto simp: sound_def nth_append less_Suc_eq)
  ultimately show ?thesis using assms(1) by (simp add: sound_def)
next
  case (Step s)
  with assms show ?thesis
    using mutex_step [of w s w'] consistent_step [of w s w'] by (simp add: sound_def)
next
  case (Raise s)
  with assms(2) obtain v where s: "s < length (sims w)"
    and r: "raises (the_viz w) (sims w ! s) = Some v"
    and w': "w' = w\<lparr>sims := (sims w)[s := v]\<rparr>"
    by (auto split: if_splits option.splits)
  from w' have sims: "sims w' = (sims w)[s := v]" by simp
  have "\<And>t. holder w' t = holder w t"
    using holder_update [OF s sims] raises_lock [OF r] s by (simp add: holder_def)
  with w' have "mutex w' = mutex w" using mutex_cong [of w' w] by simp
  moreover from assms(1) s have "consistent (pc (sims w ! s)) (sims w ! s)"
    by (simp add: sound_def)
  with r have "consistent (pc v) v" by (rule raises_consistent)
  with assms(1) w' s have "\<forall>t<length (sims w'). consistent (pc (sims w' ! t)) (sims w' ! t)"
    by (auto simp: sound_def nth_list_update)
  ultimately show ?thesis using assms(1) by (simp add: sound_def)
next
  case (Call_finish s)
  with assms(2) have s: "s < length (sims w)"
    and w': "w' = w\<lparr>sims := (sims w)[s := finish (sims w ! s)]\<rparr>"
    by (auto split: if_splits)
  from w' have sims: "sims w' = (sims w)[s := finish (sims w ! s)]" by simp
  have "\<And>t. holder w' t = holder w t"
    using holder_update [OF s sims] s by (simp add: holder_def finish_def)
  with w' have "mutex w' = mutex w" using mutex_cong [of w' w] by simp
  moreover from assms(1) w' s have "\<forall>t<length (sims w'). consistent (pc (sims w' ! t)) (sims w' ! t)"
    by (auto simp: sound_def nth_list_update consistent_finish) (simp add: finish_def)
  ultimately show ?thesis using assms(1) by (simp add: sound_def)
next
  case (Call_pop_component i)
  with assms(2) have "sims w' = sims w" "lock (the_viz w') = lock (the_viz w)"
    by (auto simp: pop_component_def split: option.splits)
  with assms(1) show ?thesis
    using mutex_cong [of w' w] holder_same [of w' w] by (simp add: sound_def)
qed

lemma sound_run: "run as w = Some w' \<Longrightarrow> sound w \<Longrightarrow> sound w'"
proof (induction as arbitrary: w)
  case Nil
  then show ?case by simp
next
  case (Cons a as)
  then show ?case by (auto split: option.splits dest: sound_exec)
qed

lemma sound_init: "sound world_init"
  by (simp add: sound_def mutex_def holder_def world_init_def Viz_init_def)

lemma reachable_sound: "run as world_init = Some w \<Longrightarrow> sound w"
  using sound_run sound_init by blast

lemmas eval_simps = step_def stmt_def raises_def Let_def add_def new_component_def world_init_def
  Viz_init_def VizSim_new_def slider_def value_graph_def finish_def pop_component_def

subsection \<open>Mutual exclusion\<close>

lemma mutating_holds: "mutating p \<Longrightarrow> holds_lock p"
  by (cases p) simp_all

lemma two_sessions_run:
  "run [Call_create_sim, Step 0, Call_create_sim, Step 0] world_init = Some two_sessions"
  by (simp add: eval_simps two_sessions_def)

text \<open>
  Claim C9. In every state the process can reach, at most one session holds the build lock
  (is between its line 22 and its line 41), the lock is locked exactly when one does, and so
  at most one session is at a statement that instantiates components, builds the simulator
  or strips the components from the model.
\<close>

theorem build_lock_mutual_exclusion:
  assumes "run as world_init = Some w"
  shows "(\<forall>s t. holder w s \<and> holder w t \<longrightarrow> s = t) \<and>
         (lock (the_viz w) \<longleftrightarrow> (\<exists>s. holder w s)) \<and>
         (\<forall>s t. s < length (sims w) \<and> t < length (sims w) \<and>
            mutating (pc (sims w ! s)) \<and> mutating (pc (sims w ! t)) \<longrightarrow> s = t)"
proof -
  from assms have m: "mutex w" using reachable_sound by (simp add: sound_def)
  then have one: "\<forall>s t. holder w s \<and> holder w t \<longrightarrow> s = t"
    and locked: "lock (the_viz w) \<longleftrightarrow> (\<exists>s. holder w s)"
    by (simp_all add: mutex_def)
  from one have "\<forall>s t. s < length (sims w) \<and> t < length (sims w) \<and>
      mutating (pc (sims w ! s)) \<and> mutating (pc (sims w ! t)) \<longrightarrow> s = t"
    using mutating_holds by (simp add: holder_def)
  with one locked show ?thesis by blast
qed

theorem build_lock_mutual_exclusion_witness:
  "run [Call_create_sim, Step 0, Call_create_sim, Step 0] world_init = Some two_sessions \<and>
   holder two_sessions 0 \<and> \<not> holder two_sessions 1 \<and> lock (the_viz two_sessions) \<and>
   mutating (pc (sims two_sessions ! 0)) \<and> \<not> mutating (pc (sims two_sessions ! 1))"
proof -
  have r: "run [Call_create_sim, Step 0, Call_create_sim, Step 0] world_init = Some two_sessions"
    by (rule two_sessions_run)
  have h: "holder two_sessions 0" by (simp add: two_sessions_def holder_def)
  from build_lock_mutual_exclusion [OF r] h have "\<not> holder two_sessions 1"
    by (metis zero_neq_one)
  with r h show ?thesis by (simp add: two_sessions_def VizSim_new_def)
qed

subsection \<open>The runner on its own\<close>

lemma run_append:
  "run (as @ bs) w = (case run as w of None \<Rightarrow> None | Some w' \<Rightarrow> run bs w')"
  by (induction as arbitrary: w) (auto split: option.splits)

lemma step_undo:
  assumes "s < length (sims w)" and "pc (sims w ! s) = For_components i"
    and "i < length (components (sims w ! s))"
  shows "step s w = Some (w\<lparr>sims := (sims w)[s := (sims w ! s)
           \<lparr>undone := undone (sims w ! s) @ [components (sims w ! s) ! i],
            pc := For_components (Suc i)\<rparr>]\<rparr>)"
  using assms by (simp add: step_def stmt_def)

lemma undo_loop:
  assumes "s < length (sims w)" and "pc (sims w ! s) = For_components i"
    and "i + k = length (components (sims w ! s))"
    and "undone (sims w ! s) = take i (components (sims w ! s))"
  shows "run (replicate k (Step s)) w =
           Some (w\<lparr>sims := (sims w)[s := (sims w ! s)
             \<lparr>undone := components (sims w ! s), pc := For_components (i + k)\<rparr>]\<rparr>)"
  using assms
proof (induction k arbitrary: w i)
  case 0
  then have "(sims w ! s)\<lparr>undone := components (sims w ! s), pc := For_components i\<rparr> = sims w ! s"
    by simp
  then show ?case by simp
next
  case (Suc k)
  let ?v = "sims w ! s"
  let ?w1 = "w\<lparr>sims := (sims w)[s := ?v\<lparr>undone := undone ?v @ [components ?v ! i],
            pc := For_components (Suc i)\<rparr>]\<rparr>"
  from Suc.prems have i: "i < length (components ?v)" by simp
  have st: "step s w = Some ?w1" using Suc.prems(1,2) i by (rule step_undo)
  have "run (replicate k (Step s)) ?w1 =
      Some (?w1\<lparr>sims := (sims ?w1)[s := (sims ?w1 ! s)
             \<lparr>undone := components (sims ?w1 ! s), pc := For_components (Suc i + k)\<rparr>]\<rparr>)"
    using Suc.prems i by (intro Suc.IH) (simp_all add: take_Suc_conv_app_nth)
  with st Suc.prems(1) show ?case by simp
qed

lemma replicate_runner: "replicate (n + 4) a = a # replicate n a @ [a, a, a]"
proof -
  have "replicate n a @ [a, a, a] = a # a # a # replicate n a"
    by (induction n) simp_all
  then show ?thesis by (simp add: numeral_eq_Suc)
qed

lemma runner_builds:
  assumes "s < length (sims w)" and "pc (sims w ! s) = Build" and "lock (the_viz w)"
    and "undone (sims w ! s) = []"
  shows "run (replicate (length (components (sims w ! s)) + 4) (Step s)) w =
           Some (w\<lparr>the_viz := (the_viz w)\<lparr>lock := False\<rparr>,
                   sims := (sims w)[s := (sims w ! s)\<lparr>sim := Some 0,
                     undone := components (sims w ! s), building := False, pc := While_test\<rparr>]\<rparr>)"
proof -
  let ?v = "sims w ! s"
  let ?w1 = "w\<lparr>sims := (sims w)[s := ?v\<lparr>sim := Some 0, pc := For_components 0\<rparr>]\<rparr>"
  let ?w2 = "w\<lparr>sims := (sims w)[s := ?v\<lparr>sim := Some 0, undone := components ?v,
     pc := For_components (length (components ?v))\<rparr>]\<rparr>"
  have 1: "step s w = Some ?w1" using assms(1,2) by (simp add: step_def stmt_def)
  have "run (replicate (length (components ?v)) (Step s)) ?w1 =
      Some (?w1\<lparr>sims := (sims ?w1)[s := (sims ?w1 ! s)
             \<lparr>undone := components (sims ?w1 ! s),
              pc := For_components (0 + length (components ?v))\<rparr>]\<rparr>)"
    using assms by (intro undo_loop) simp_all
  then have 2: "run (replicate (length (components ?v)) (Step s)) ?w1 = Some ?w2"
    using assms(1) by simp
  have 3: "run [Step s, Step s, Step s] ?w2 =
      Some (w\<lparr>the_viz := (the_viz w)\<lparr>lock := False\<rparr>,
                   sims := (sims w)[s := ?v\<lparr>sim := Some 0,
                     undone := components ?v, building := False, pc := While_test\<rparr>]\<rparr>)"
    using assms(1,3) by (simp add: step_def stmt_def)
  show ?thesis
    unfolding replicate_runner using 1 2 3 by (simp add: run_append)
qed

lemma consistent_undo:
  "consistent p v \<Longrightarrow>
     undone v = take (length (undone v)) (components v) \<and>
     (undone v \<noteq> [] \<longrightarrow> sim v \<noteq> None) \<and>
     (\<not> building v \<longrightarrow> undone v = components v \<and> sim v \<noteq> None) \<and>
     (\<forall>k. sim v = Some (Suc k) \<longrightarrow> \<not> building v)"
  by (induction p) auto

lemma one_started_run:
  "run [Call_create_sim, Step 0, Step 0, Step 0, Step 0] world_init = Some one_started"
  by (simp add: eval_simps one_started_def)

lemma one_running_run:
  "run [Step 0, Step 0, Step 0, Step 0, Step 0] one_started = Some one_running"
  by (simp add: eval_simps one_started_def one_running_def)

lemma one_running_reached:
  "run ([Call_create_sim, Step 0, Step 0, Step 0, Step 0] @ [Step 0, Step 0, Step 0, Step 0, Step 0])
     world_init = Some one_running"
  using one_started_run one_running_run by (simp only: run_append option.case)

subsection \<open>Undo before running\<close>

text \<open>
  Claim C6. In every state the process can reach, the components of a session whose
  \<^verbatim>\<open>remove_nengo_objects\<close> has been called are an initial part of its component list, in the
  order of the list (the order of the template); none is called before the simulator is
  built; a session that has left the building state has had all of them called; and a
  simulator that has run a step belongs to a session that has left the building state.
  Left alone, a runner at line 35 gets there: it builds, calls every component's undo and
  leaves the building state before the first test of the loop.
\<close>

theorem undo_before_running:
  assumes "run as world_init = Some w" and "s < length (sims w)"
  shows "undone (sims w ! s) = take (length (undone (sims w ! s))) (components (sims w ! s)) \<and>
     (undone (sims w ! s) \<noteq> [] \<longrightarrow> sim (sims w ! s) \<noteq> None) \<and>
     (\<not> building (sims w ! s) \<longrightarrow>
        undone (sims w ! s) = components (sims w ! s) \<and> sim (sims w ! s) \<noteq> None) \<and>
     (\<forall>k. sim (sims w ! s) = Some (Suc k) \<longrightarrow> \<not> building (sims w ! s)) \<and>
     (pc (sims w ! s) = Build \<longrightarrow>
        (\<exists>w'. run (replicate (length (components (sims w ! s)) + 4) (Step s)) w = Some w' \<and>
           pc (sims w' ! s) = While_test \<and> \<not> building (sims w' ! s) \<and>
           sim (sims w' ! s) = Some 0 \<and>
           components (sims w' ! s) = components (sims w ! s) \<and>
           undone (sims w' ! s) = components (sims w ! s)))"
proof -
  let ?v = "sims w ! s"
  from assms have snd: "sound w" using reachable_sound by blast
  with assms(2) have c: "consistent (pc ?v) ?v" by (simp add: sound_def)
  have "pc ?v = Build \<longrightarrow>
        (\<exists>w'. run (replicate (length (components ?v) + 4) (Step s)) w = Some w' \<and>
           pc (sims w' ! s) = While_test \<and> \<not> building (sims w' ! s) \<and>
           sim (sims w' ! s) = Some 0 \<and>
           components (sims w' ! s) = components ?v \<and>
           undone (sims w' ! s) = components ?v)"
  proof
    assume b: "pc ?v = Build"
    with c have u: "undone ?v = []" by simp
    from b assms(2) have "holder w s" by (simp add: holder_def)
    with snd have "lock (the_viz w)" by (auto simp: sound_def mutex_def)
    from runner_builds [OF assms(2) b this u] assms(2)
    show "\<exists>w'. run (replicate (length (components ?v) + 4) (Step s)) w = Some w' \<and>
           pc (sims w' ! s) = While_test \<and> \<not> building (sims w' ! s) \<and>
           sim (sims w' ! s) = Some 0 \<and>
           components (sims w' ! s) = components ?v \<and>
           undone (sims w' ! s) = components ?v"
      by simp
  qed
  with consistent_undo [OF c] show ?thesis by blast
qed

theorem undo_before_running_witness:
  "run [Call_create_sim, Step 0, Step 0, Step 0, Step 0] world_init = Some one_started \<and>
   pc (sims one_started ! 0) = Build \<and>
   (\<exists>w'. run (replicate (length (components (sims one_started ! 0)) + 4) (Step 0)) one_started =
           Some w' \<and>
         pc (sims w' ! 0) = While_test \<and> \<not> building (sims w' ! 0) \<and>
         undone (sims w' ! 0) = components (sims one_started ! 0)) \<and>
   \<not> building (sims one_running ! 0) \<and>
   undone (sims one_running ! 0) = components (sims one_running ! 0) \<and>
   undone (sims one_running ! 0) \<noteq> []"
proof -
  have l: "0 < length (sims one_started)" "0 < length (sims one_running)"
    by (simp_all add: one_started_def one_running_def)
  have b: "pc (sims one_started ! 0) = Build" by (simp add: one_started_def)
  have n: "\<not> building (sims one_running ! 0)" "undone (sims one_running ! 0) \<noteq> []"
    by (simp_all add: one_running_def)
  from undo_before_running [OF one_started_run l(1)] b
    undo_before_running [OF one_running_reached l(2)] n one_started_run
  show ?thesis by blast
qed

subsection \<open>Instantiation under the lock\<close>

lemma stmt_components:
  assumes "stmt n s z v = Some (z', v', n')" and "components v' \<noteq> components v"
  shows "\<exists>i. pc v = For_template i \<and> i < length (template z) \<and>
           components v' = components v @ [new_component n s (template z ! i)] \<and>
           z' = snd (add z (new_component n s (template z ! i))) \<and>
           pc v' = For_template (Suc i)"
  using assms by (cases "pc v") (auto simp: stmt_def Let_def split: if_splits option.splits)

lemma stmt_registers:
  assumes "stmt n s z v = Some (z', v', n')" and "viz_components z' \<noteq> viz_components z"
  shows "\<exists>i. pc v = For_template i \<and> pc v' = For_template (Suc i)"
  using assms by (cases "pc v") (auto simp: stmt_def Let_def split: if_splits option.splits)

lemma stmt_acquires:
  assumes "stmt n s z v = Some (z', v', n')" and "\<not> lock z" and "lock z'"
  shows "pc v = Acquire"
  using assms by (cases "pc v") (auto simp: stmt_def Let_def add_def split: if_splits option.splits)

lemma stmt_releases:
  assumes "stmt n s z v = Some (z', v', n')" and "lock z" and "\<not> lock z'"
  shows "pc v = Release"
  using assms by (cases "pc v") (auto simp: stmt_def Let_def add_def split: if_splits option.splits)

lemma exec_components:
  assumes "exec a w = Some w'" and "s < length (sims w)"
    and "components (sims w' ! s) \<noteq> components (sims w ! s)"
  shows "a = Step s \<and> (\<exists>i c. pc (sims w ! s) = For_template i \<and>
           pc (sims w' ! s) = For_template (Suc i) \<and> ident c = next_ident w \<and>
           components (sims w' ! s) = components (sims w ! s) @ [c] \<and>
           the_viz w' = snd (add (the_viz w) c))"
proof (cases a)
  case (Step t)
  with assms(1) obtain z v n where t: "t < length (sims w)"
    and st: "stmt (next_ident w) t (the_viz w) (sims w ! t) = Some (z, v, n)"
    and w': "w' = w\<lparr>the_viz := z, sims := (sims w)[t := v], next_ident := n\<rparr>"
    using step_sims by fastforce
  from w' assms(3) have ts: "t = s" by (cases "t = s") auto
  with w' assms(2,3) have "components v \<noteq> components (sims w ! s)" by simp
  from stmt_components [OF st [unfolded ts] this] Step ts w' assms(2) show ?thesis
    by (auto simp: new_component_def)
next
  case (Raise t)
  with assms have False
    by (cases "pc (sims w ! t)"; cases "t = s")
      (auto simp: raises_def split: if_splits option.splits)
  then show ?thesis ..
next
  case (Call_finish t)
  with assms have False by (cases "t = s") (auto simp: finish_def split: if_splits)
  then show ?thesis ..
qed (use assms in \<open>auto simp: nth_append split: sum.splits\<close>)

lemma exec_registers:
  assumes "exec a w = Some w'" and "viz_components (the_viz w') k = Some c"
    and "viz_components (the_viz w) k \<noteq> Some c"
  shows "\<exists>s i. a = Step s \<and> s < length (sims w) \<and> pc (sims w ! s) = For_template i \<and>
           pc (sims w' ! s) = For_template (Suc i)"
proof (cases a)
  case (Step t)
  with assms(1) obtain z v n where t: "t < length (sims w)"
    and st: "stmt (next_ident w) t (the_viz w) (sims w ! t) = Some (z, v, n)"
    and w': "w' = w\<lparr>the_viz := z, sims := (sims w)[t := v], next_ident := n\<rparr>"
    using step_sims by fastforce
  from w' assms(2,3) have "viz_components z \<noteq> viz_components (the_viz w)" by auto
  from stmt_registers [OF st this] Step t w' show ?thesis by auto
next
  case (Call_pop_component i)
  with assms have False
    by (auto simp: pop_component_def split: option.splits if_splits)
  then show ?thesis ..
qed (use assms in \<open>auto simp: slider_def value_graph_def split: if_splits option.splits\<close>)

lemma exec_lock:
  assumes "exec a w = Some w'" and "lock (the_viz w') \<noteq> lock (the_viz w)"
  shows "\<exists>s. a = Step s \<and> s < length (sims w) \<and> length (sims w') = length (sims w) \<and>
           pc (sims w ! s) = (if lock (the_viz w) then Release else Acquire)"
proof (cases a)
  case (Step t)
  with assms(1) obtain z v n where t: "t < length (sims w)"
    and st: "stmt (next_ident w) t (the_viz w) (sims w ! t) = Some (z, v, n)"
    and w': "w' = w\<lparr>the_viz := z, sims := (sims w)[t := v], next_ident := n\<rparr>"
    using step_sims by fastforce
  from w' assms(2) have "lock z \<noteq> lock (the_viz w)" by simp
  with stmt_acquires [OF st] stmt_releases [OF st] Step t w' show ?thesis by auto
next
  case (Call_pop_component i)
  with assms have False
    by (auto simp: pop_component_def split: option.splits if_splits)
  then show ?thesis ..
qed (use assms in \<open>auto simp: slider_def value_graph_def split: if_splits option.splits\<close>)

lemma one_created_run: "run [Call_create_sim] world_init = Some one_created"
  by (simp add: eval_simps one_created_def)

lemma one_locked_run: "run [Call_create_sim, Step 0] world_init = Some one_locked"
  by (simp add: eval_simps one_locked_def)

lemma one_releasing_run:
  "run [Call_create_sim, Step 0, Step 0, Step 0, Step 0, Step 0, Step 0, Step 0] world_init =
     Some one_releasing"
  by (simp add: eval_simps one_releasing_def)

lemma one_locked_step: "exec (Step 0) one_created = Some one_locked"
  by (simp add: eval_simps one_created_def one_locked_def)

lemma one_instantiated_step: "exec (Step 0) one_locked = Some one_instantiated"
  by (simp add: eval_simps one_locked_def one_instantiated_def)

lemma one_released_step: "exec (Step 0) one_releasing = Some one_released"
  by (simp add: eval_simps one_releasing_def one_released_def)

text \<open>
  Claim C10. In every state the process can reach, an action that adds a component to a
  session's list is a statement of that session, run while the session holds the lock
  (before and after it), and the same statement registers the component with \<^verbatim>\<open>add\<close>; any
  action that writes an entry of the dictionary is such a statement. The action that locks
  the lock belongs to a session that has no component yet, and the action that unlocks it
  to the session that holds it, whose simulator is built and whose components have all been
  undone.
\<close>

theorem components_made_under_lock:
  assumes "run as world_init = Some w" and "exec a w = Some w'"
  shows "(\<forall>s. s < length (sims w) \<and> components (sims w' ! s) \<noteq> components (sims w ! s) \<longrightarrow>
            a = Step s \<and> holder w s \<and> lock (the_viz w) \<and> holder w' s \<and> lock (the_viz w') \<and>
            (\<exists>c. components (sims w' ! s) = components (sims w ! s) @ [c] \<and>
                 the_viz w' = snd (add (the_viz w) c))) \<and>
         (\<forall>k c. viz_components (the_viz w') k = Some c \<and> viz_components (the_viz w) k \<noteq> Some c \<longrightarrow>
            lock (the_viz w) \<and> lock (the_viz w') \<and> (\<exists>s. a = Step s \<and> holder w s \<and> holder w' s)) \<and>
         (\<not> lock (the_viz w) \<and> lock (the_viz w') \<longrightarrow>
            (\<exists>s. a = Step s \<and> holder w' s \<and> components (sims w' ! s) = [])) \<and>
         (lock (the_viz w) \<and> \<not> lock (the_viz w') \<longrightarrow>
            (\<exists>s. a = Step s \<and> holder w s \<and> sim (sims w ! s) \<noteq> None \<and>
                 undone (sims w ! s) = components (sims w ! s)))"
proof -
  from assms(1) have snd: "sound w" by (rule reachable_sound)
  from snd assms(2) have snd': "sound w'" by (rule sound_exec)
  have held: "\<And>s. holder w s \<Longrightarrow> lock (the_viz w)"
    using snd by (auto simp: sound_def mutex_def)
  have held': "\<And>s. holder w' s \<Longrightarrow> lock (the_viz w')"
    using snd' by (auto simp: sound_def mutex_def)
  have 1: "a = Step s \<and> holder w s \<and> lock (the_viz w) \<and> holder w' s \<and> lock (the_viz w') \<and>
            (\<exists>c. components (sims w' ! s) = components (sims w ! s) @ [c] \<and>
                 the_viz w' = snd (add (the_viz w) c))"
    if "s < length (sims w)" "components (sims w' ! s) \<noteq> components (sims w ! s)" for s
  proof -
    from exec_components [OF assms(2) that] obtain i c where a: "a = Step s"
      and p: "pc (sims w ! s) = For_template i" "pc (sims w' ! s) = For_template (Suc i)"
      and c: "components (sims w' ! s) = components (sims w ! s) @ [c]"
        "the_viz w' = snd (add (the_viz w) c)"
      by blast
    from a assms(2) have "length (sims w') = length (sims w)"
      using step_sims by fastforce
    with p that(1) have "holder w s" "holder w' s" by (simp_all add: holder_def)
    with a c held held' show ?thesis by blast
  qed
  have 2: "lock (the_viz w) \<and> lock (the_viz w') \<and> (\<exists>s. a = Step s \<and> holder w s \<and> holder w' s)"
    if "viz_components (the_viz w') k = Some c" "viz_components (the_viz w) k \<noteq> Some c" for k c
  proof -
    from exec_registers [OF assms(2) that] obtain s i where a: "a = Step s"
      and s: "s < length (sims w)"
      and p: "pc (sims w ! s) = For_template i" "pc (sims w' ! s) = For_template (Suc i)"
      by blast
    from a assms(2) have "length (sims w') = length (sims w)"
      using step_sims by fastforce
    with p s have "holder w s" "holder w' s" by (simp_all add: holder_def)
    with a held held' show ?thesis by blast
  qed
  have 3: "\<exists>s. a = Step s \<and> holder w' s \<and> components (sims w' ! s) = []"
    if "\<not> lock (the_viz w)" "lock (the_viz w')"
  proof -
    from that exec_lock [OF assms(2)] obtain s where a: "a = Step s"
      and s: "s < length (sims w)" and p: "pc (sims w ! s) = Acquire"
      by auto
    from snd s p have e: "components (sims w ! s) = []" by (auto simp: sound_def)
    from a assms(2) s p that(1) have "pc (sims w' ! s) = For_template 0"
      "components (sims w' ! s) = components (sims w ! s)" "length (sims w') = length (sims w)"
      by (auto simp: step_def stmt_def)
    with e s a show ?thesis by (auto simp: holder_def)
  qed
  have 4: "\<exists>s. a = Step s \<and> holder w s \<and> sim (sims w ! s) \<noteq> None \<and>
                 undone (sims w ! s) = components (sims w ! s)"
    if "lock (the_viz w)" "\<not> lock (the_viz w')"
  proof -
    from that exec_lock [OF assms(2)] obtain s where a: "a = Step s"
      and s: "s < length (sims w)" and p: "pc (sims w ! s) = Release"
      by auto
    from snd s have "consistent (pc (sims w ! s)) (sims w ! s)" by (simp add: sound_def)
    with p have "sim (sims w ! s) \<noteq> None" "undone (sims w ! s) = components (sims w ! s)"
      by simp_all
    with a s p show ?thesis by (auto simp: holder_def)
  qed
  from 1 2 3 4 show ?thesis by blast
qed

theorem components_made_under_lock_witness:
  "run [Call_create_sim, Step 0] world_init = Some one_locked \<and>
   exec (Step 0) one_locked = Some one_instantiated \<and>
   components (sims one_instantiated ! 0) \<noteq> components (sims one_locked ! 0) \<and>
   viz_components (the_viz one_instantiated) 0 \<noteq> viz_components (the_viz one_locked) 0 \<and>
   holder one_locked 0 \<and> lock (the_viz one_locked) \<and>
   holder one_instantiated 0 \<and> lock (the_viz one_instantiated) \<and>
   \<not> lock (the_viz one_created) \<and> (\<exists>s. holder one_locked s \<and> components (sims one_locked ! s) = []) \<and>
   \<not> lock (the_viz one_released) \<and>
   (\<exists>s. holder one_releasing s \<and> undone (sims one_releasing ! s) = components (sims one_releasing ! s))"
proof -
  have c: "components (sims one_instantiated ! 0) \<noteq> components (sims one_locked ! 0)"
    "viz_components (the_viz one_instantiated) 0 \<noteq> viz_components (the_viz one_locked) 0"
    "0 < length (sims one_locked)"
    by (simp_all add: one_instantiated_def one_locked_def)
  have l: "\<not> lock (the_viz one_created)" "lock (the_viz one_locked)"
    "lock (the_viz one_releasing)" "\<not> lock (the_viz one_released)"
    by (simp_all add: one_created_def one_locked_def one_releasing_def one_released_def Viz_init_def)
  from components_made_under_lock [OF one_locked_run one_instantiated_step] c
  have "holder one_locked 0 \<and> holder one_instantiated 0 \<and> lock (the_viz one_instantiated)"
    by blast
  moreover from components_made_under_lock [OF one_created_run one_locked_step] l
  have "\<exists>s. holder one_locked s \<and> components (sims one_locked ! s) = []"
    by blast
  moreover from components_made_under_lock [OF one_releasing_run one_released_step] l
  have "\<exists>s. holder one_releasing s \<and>
      undone (sims one_releasing ! s) = components (sims one_releasing ! s)"
    by blast
  ultimately show ?thesis
    using c l one_locked_run one_instantiated_step by blast
qed

subsection \<open>The calling path on its own\<close>

lemma step_instantiate:
  assumes "s < length (sims w)" and "pc (sims w ! s) = For_template i"
    and "i < length (template (the_viz w))"
  shows "step s w = Some (w\<lparr>the_viz := snd (add (the_viz w)
             (new_component (next_ident w) s (template (the_viz w) ! i))),
           sims := (sims w)[s := (sims w ! s)
             \<lparr>components := components (sims w ! s) @
                [new_component (next_ident w) s (template (the_viz w) ! i)],
              pc := For_template (Suc i)\<rparr>],
           next_ident := Suc (next_ident w)\<rparr>)"
  using assms by (simp add: step_def stmt_def Let_def)

lemma add_template: "template (snd (add z c)) = template z"
  by (simp add: add_def)

lemma add_lock: "lock (snd (add z c)) = lock z"
  by (simp add: add_def)

lemma add_all_template: "template (add_all z cs) = template z"
  by (induction cs arbitrary: z) (simp_all add: add_def)

lemma add_all_lock: "lock (add_all z cs) = lock z"
  by (induction cs arbitrary: z) (simp_all add: add_def)

lemma instantiate_loop:
  assumes "s < length (sims w)" and "pc (sims w ! s) = For_template i"
    and "i + k = length (template (the_viz w))"
  shows "run (replicate k (Step s)) w =
           Some (w\<lparr>the_viz := add_all (the_viz w)
                     (instantiate (next_ident w) s (drop i (template (the_viz w)))),
                   sims := (sims w)[s := (sims w ! s)
                     \<lparr>components := components (sims w ! s) @
                        instantiate (next_ident w) s (drop i (template (the_viz w))),
                      pc := For_template (i + k)\<rparr>],
                   next_ident := next_ident w + k\<rparr>)"
  using assms
proof (induction k arbitrary: w i)
  case 0
  let ?cs = "instantiate (next_ident w) s (drop i (template (the_viz w)))"
  from 0 have cs: "?cs = []" by simp
  have "(sims w ! s)\<lparr>components := components (sims w ! s) @ ?cs, pc := For_template (i + 0)\<rparr> =
      sims w ! s"
    by (rule vizsim.equality) (use 0 cs in simp_all)
  then have "w\<lparr>the_viz := add_all (the_viz w) ?cs,
      sims := (sims w)[s := (sims w ! s)\<lparr>components := components (sims w ! s) @ ?cs,
        pc := For_template (i + 0)\<rparr>],
      next_ident := next_ident w + 0\<rparr> = w"
    by (intro world.equality) (simp_all add: cs)
  then show ?case by simp
next
  case (Suc k)
  let ?v = "sims w ! s"
  let ?c = "new_component (next_ident w) s (template (the_viz w) ! i)"
  let ?w1 = "w\<lparr>the_viz := snd (add (the_viz w) ?c),
           sims := (sims w)[s := ?v\<lparr>components := components ?v @ [?c], pc := For_template (Suc i)\<rparr>],
           next_ident := Suc (next_ident w)\<rparr>"
  from Suc.prems have i: "i < length (template (the_viz w))" by simp
  then have d: "drop i (template (the_viz w)) =
      template (the_viz w) ! i # drop (Suc i) (template (the_viz w))"
    by (simp add: Cons_nth_drop_Suc)
  have t1: "template (the_viz ?w1) = template (the_viz w)" by (simp add: add_def)
  have st: "step s w = Some ?w1" using Suc.prems(1,2) i by (rule step_instantiate)
  have "run (replicate k (Step s)) ?w1 =
      Some (?w1\<lparr>the_viz := add_all (the_viz ?w1)
                     (instantiate (next_ident ?w1) s (drop (Suc i) (template (the_viz ?w1)))),
                   sims := (sims ?w1)[s := (sims ?w1 ! s)
                     \<lparr>components := components (sims ?w1 ! s) @
                        instantiate (next_ident ?w1) s (drop (Suc i) (template (the_viz ?w1))),
                      pc := For_template (Suc i + k)\<rparr>],
                   next_ident := next_ident ?w1 + k\<rparr>)"
    using Suc.prems i by (intro Suc.IH) (simp_all add: add_def)
  with st Suc.prems(1) show ?case by (simp add: d add_template)
qed

lemma replicate_init: "replicate (n + 3) a = a # replicate n a @ [a, a]"
proof -
  have "replicate n a @ [a, a] = a # a # replicate n a"
    by (induction n) simp_all
  then show ?thesis by (simp add: numeral_eq_Suc)
qed

lemma create_sim_blocks:
  assumes "lock (the_viz w)"
  shows "create_sim w = None"
  using assms by (simp add: create_sim_def replicate_init step_def stmt_def VizSim_new_def)

lemma create_sim_alone:
  assumes "\<not> lock (the_viz w)"
  shows "create_sim w =
           Some (w\<lparr>the_viz := add_all ((the_viz w)\<lparr>lock := True\<rparr>)
                     (instantiate (next_ident w) (length (sims w)) (template (the_viz w))),
                   sims := sims w @ [VizSim_new
                     \<lparr>components :=
                        instantiate (next_ident w) (length (sims w)) (template (the_viz w)),
                      pc := Build\<rparr>],
                   next_ident := next_ident w + length (template (the_viz w))\<rparr>)"
proof -
  let ?n = "length (sims w)"
  let ?N = "length (template (the_viz w))"
  let ?cs = "instantiate (next_ident w) ?n (template (the_viz w))"
  let ?w1 = "w\<lparr>the_viz := (the_viz w)\<lparr>lock := True\<rparr>,
                sims := sims w @ [VizSim_new\<lparr>pc := For_template 0\<rparr>]\<rparr>"
  let ?w2 = "w\<lparr>the_viz := add_all ((the_viz w)\<lparr>lock := True\<rparr>) ?cs,
                sims := sims w @ [VizSim_new\<lparr>components := ?cs, pc := For_template ?N\<rparr>],
                next_ident := next_ident w + ?N\<rparr>"
  have 1: "run [Call_create_sim, Step ?n] w = Some ?w1"
    using assms by (simp add: step_def stmt_def VizSim_new_def)
  have "run (replicate ?N (Step ?n)) ?w1 =
      Some (?w1\<lparr>the_viz := add_all (the_viz ?w1)
                     (instantiate (next_ident ?w1) ?n (drop 0 (template (the_viz ?w1)))),
                   sims := (sims ?w1)[?n := (sims ?w1 ! ?n)
                     \<lparr>components := components (sims ?w1 ! ?n) @
                        instantiate (next_ident ?w1) ?n (drop 0 (template (the_viz ?w1))),
                      pc := For_template (0 + ?N)\<rparr>],
                   next_ident := next_ident ?w1 + ?N\<rparr>)"
    by (intro instantiate_loop) simp_all
  then have 2: "run (replicate ?N (Step ?n)) ?w1 = Some ?w2"
    by (simp add: VizSim_new_def)
  have 3: "run [Step ?n, Step ?n] ?w2 =
      Some (w\<lparr>the_viz := add_all ((the_viz w)\<lparr>lock := True\<rparr>) ?cs,
                sims := sims w @ [VizSim_new\<lparr>components := ?cs, pc := Build\<rparr>],
                next_ident := next_ident w + ?N\<rparr>)"
    by (simp add: step_def stmt_def add_all_template)
  have "create_sim w = run (([Call_create_sim, Step ?n] @ replicate ?N (Step ?n)) @ [Step ?n, Step ?n]) w"
    by (simp add: create_sim_def replicate_init)
  also have "\<dots> = Some (w\<lparr>the_viz := add_all ((the_viz w)\<lparr>lock := True\<rparr>) ?cs,
                sims := sims w @ [VizSim_new\<lparr>components := ?cs, pc := Build\<rparr>],
                next_ident := next_ident w + ?N\<rparr>)"
    using 1 2 3 by (simp only: run_append option.case)
  finally show ?thesis .
qed

subsection \<open>Where a session can block\<close>

lemma stmt_None: "stmt n s z v = None \<longleftrightarrow> (pc v = Acquire \<and> lock z) \<or> ended (pc v)"
  by (cases "pc v") (simp_all add: stmt_def Let_def split: option.splits)

lemma step_None:
  "s < length (sims w) \<Longrightarrow>
     step s w = None \<longleftrightarrow> (pc (sims w ! s) = Acquire \<and> lock (the_viz w)) \<or> ended (pc (sims w ! s))"
  using stmt_None [of "next_ident w" s "the_viz w" "sims w ! s"]
  by (auto simp: step_def split: option.splits)

lemma second_called_run: "run [Call_create_sim] one_started = Some second_called"
  by (simp add: eval_simps one_started_def second_called_def)

lemma one_released_run: "run [Step 0, Step 0, Step 0, Step 0] one_started = Some one_released"
  by (simp add: eval_simps one_started_def one_released_def)

text \<open>
  Claim C4, as stated, fails: \<^verbatim>\<open>lock.acquire()\<close> is line 22 of \<^verbatim>\<open>__init__\<close>, on the path of
  the caller of \<^verbatim>\<open>create_sim\<close>, not in \<^verbatim>\<open>runner\<close>. After a first \<^verbatim>\<open>create_sim\<close> has returned and
  while its session is still building (no simulator yet), a second \<^verbatim>\<open>create_sim\<close> does not
  return: its line 22 cannot run. It returns once the first runner has passed line 41.
\<close>

theorem second_create_sim_blocks:
  "run [Call_create_sim, Step 0, Step 0, Step 0, Step 0] world_init = Some one_started \<and>
   pc (sims one_started ! 0) = Build \<and> building (sims one_started ! 0) \<and>
   sim (sims one_started ! 0) = None \<and>
   create_sim one_started = None \<and>
   run [Call_create_sim] one_started = Some second_called \<and>
   pc (sims second_called ! 1) = Acquire \<and> exec (Step 1) second_called = None \<and>
   run [Step 0, Step 0, Step 0, Step 0] one_started = Some one_released \<and>
   create_sim one_released \<noteq> None"
proof -
  have "lock (the_viz one_started)" by (simp add: one_started_def)
  then have "create_sim one_started = None" by (rule create_sim_blocks)
  moreover have "\<not> lock (the_viz one_released)" by (simp add: one_released_def)
  then have "create_sim one_released \<noteq> None" by (simp add: create_sim_alone)
  moreover have "exec (Step 1) second_called = None"
    by (simp add: step_def stmt_def second_called_def VizSim_new_def)
  moreover have "pc (sims one_started ! 0) = Build \<and> building (sims one_started ! 0) \<and>
      sim (sims one_started ! 0) = None \<and> pc (sims second_called ! 1) = Acquire"
    by (simp add: one_started_def second_called_def VizSim_new_def)
  ultimately show ?thesis
    using one_started_run second_called_run one_released_run by simp
qed

text \<open>
  Claim C4, amended. In every state the process can reach, the only statement of a live
  session that cannot run is line 22, on the calling path, and only while the lock is
  locked, that is, while another session holds it; no statement of \<^verbatim>\<open>runner\<close> blocks, and
  \<^verbatim>\<open>runner\<close> never acquires the lock. While the lock is locked \<^verbatim>\<open>create_sim\<close> does not return;
  when it is free \<^verbatim>\<open>create_sim\<close> returns with the thread started and without waiting for the
  build: the new session is still building, has no simulator, and holds the lock.
\<close>

theorem only_line_22_blocks:
  assumes "run as world_init = Some w"
  shows "(\<forall>s. s < length (sims w) \<longrightarrow>
            (step s w = None) =
              (pc (sims w ! s) = Acquire \<and> lock (the_viz w) \<or> ended (pc (sims w ! s)))) \<and>
         (lock (the_viz w) \<longrightarrow> create_sim w = None \<and> (\<exists>t. holder w t)) \<and>
         (\<not> lock (the_viz w) \<longrightarrow>
            (\<exists>w'. create_sim w = Some w' \<and> length (sims w') = Suc (length (sims w)) \<and>
               pc (sims w' ! length (sims w)) = Build \<and>
               building (sims w' ! length (sims w)) \<and>
               sim (sims w' ! length (sims w)) = None \<and>
               holder w' (length (sims w)) \<and> lock (the_viz w')))"
proof -
  from assms have "sound w" by (rule reachable_sound)
  then have "lock (the_viz w) \<longrightarrow> (\<exists>t. holder w t)" by (simp add: sound_def mutex_def)
  moreover have "\<exists>w'. create_sim w = Some w' \<and> length (sims w') = Suc (length (sims w)) \<and>
               pc (sims w' ! length (sims w)) = Build \<and>
               building (sims w' ! length (sims w)) \<and>
               sim (sims w' ! length (sims w)) = None \<and>
               holder w' (length (sims w)) \<and> lock (the_viz w')"
    if "\<not> lock (the_viz w)"
    using create_sim_alone [OF that]
    by (simp add: holder_def VizSim_new_def add_all_lock)
  ultimately show ?thesis using step_None [of _ w] create_sim_blocks [of w] by blast
qed

theorem only_line_22_blocks_witness:
  "run [Call_create_sim, Step 0, Step 0, Step 0, Step 0, Call_create_sim] world_init =
     Some second_called \<and>
   step 1 second_called = None \<and> pc (sims second_called ! 1) = Acquire \<and>
   lock (the_viz second_called) \<and> step 0 second_called \<noteq> None \<and>
   create_sim second_called = None \<and> holder second_called 0 \<and>
   \<not> lock (the_viz world_init) \<and> create_sim world_init = Some one_started"
proof -
  have r: "run [Call_create_sim, Step 0, Step 0, Step 0, Step 0, Call_create_sim] world_init =
     Some second_called"
    by (simp add: eval_simps second_called_def)
  have i: "run [] world_init = Some world_init" by simp
  have f: "pc (sims second_called ! 1) = Acquire" "lock (the_viz second_called)"
    "\<not> ended (pc (sims second_called ! 0))" "pc (sims second_called ! 0) \<noteq> Acquire"
    "0 < length (sims second_called)" "1 < length (sims second_called)"
    "\<not> lock (the_viz world_init)" "holder second_called 0"
    by (simp_all add: second_called_def VizSim_new_def world_init_def Viz_init_def holder_def)
  have c: "create_sim world_init = Some one_started"
    by (simp add: create_sim_def eval_simps one_started_def numeral_eq_Suc)
  from only_line_22_blocks [OF r] f
  have "step 1 second_called = None \<and> step 0 second_called \<noteq> None \<and>
      create_sim second_called = None"
    by blast
  moreover from only_line_22_blocks [OF i] f have "create_sim world_init \<noteq> None"
    by fastforce
  ultimately show ?thesis using r f c by blast
qed

subsection \<open>A failing build\<close>

lemma raises_ended: "ended (pc v) \<Longrightarrow> raises z v = None"
  by (cases "pc v") (simp_all add: raises_def)

lemma ended_exec:
  assumes "exec a w = Some w'" and "s < length (sims w)" and "ended (pc (sims w ! s))"
  shows "s < length (sims w') \<and> pc (sims w' ! s) = pc (sims w ! s) \<and>
         building (sims w' ! s) = building (sims w ! s) \<and> sim (sims w' ! s) = sim (sims w ! s) \<and>
         undone (sims w' ! s) = undone (sims w ! s) \<and>
         components (sims w' ! s) = components (sims w ! s)"
proof (cases a)
  case (Step t)
  with assms(1) obtain z v n where t: "t < length (sims w)"
    and st: "stmt (next_ident w) t (the_viz w) (sims w ! t) = Some (z, v, n)"
    and w': "w' = w\<lparr>the_viz := z, sims := (sims w)[t := v], next_ident := n\<rparr>"
    using step_sims by fastforce
  from st assms(3) have "t \<noteq> s"
    using stmt_None [of "next_ident w" t "the_viz w" "sims w ! t"] by auto
  with w' assms(2) show ?thesis by simp
next
  case (Raise t)
  with assms(1) obtain v where t: "t < length (sims w)"
    and r: "raises (the_viz w) (sims w ! t) = Some v"
    and w': "w' = w\<lparr>sims := (sims w)[t := v]\<rparr>"
    by (auto split: if_splits option.splits)
  from r assms(3) have "t \<noteq> s"
    using raises_ended [of "sims w ! t" "the_viz w"] by auto
  with w' assms(2) show ?thesis by simp
next
  case (Call_finish t)
  with assms(1,2) show ?thesis
    by (cases "t = s") (auto simp: finish_def split: if_splits)
next
  case (Call_slider args kwargs)
  with assms(1,2) show ?thesis by auto
next
  case (Call_value args kwargs)
  with assms(1,2) show ?thesis by auto
next
  case Call_create_sim
  with assms(1,2) show ?thesis by (auto simp: nth_append)
next
  case (Call_pop_component i)
  with assms(1,2) show ?thesis by (cases "pop_component (the_viz w) i") auto
qed

lemma ended_run:
  assumes "run bs w = Some w'" and "s < length (sims w)" and "ended (pc (sims w ! s))"
  shows "s < length (sims w') \<and> pc (sims w' ! s) = pc (sims w ! s) \<and>
         building (sims w' ! s) = building (sims w ! s) \<and> sim (sims w' ! s) = sim (sims w ! s) \<and>
         undone (sims w' ! s) = undone (sims w ! s) \<and>
         components (sims w' ! s) = components (sims w ! s)"
  using assms
proof (induction bs arbitrary: w)
  case Nil
  then show ?case by simp
next
  case (Cons a bs)
  from Cons.prems(1) obtain w1 where a: "exec a w = Some w1" and r: "run bs w1 = Some w'"
    by (auto split: option.splits)
  from ended_exec [OF a Cons.prems(2,3)] have 1: "s < length (sims w1)"
    "pc (sims w1 ! s) = pc (sims w ! s)" "building (sims w1 ! s) = building (sims w ! s)"
    "sim (sims w1 ! s) = sim (sims w ! s)" "undone (sims w1 ! s) = undone (sims w ! s)"
    "components (sims w1 ! s) = components (sims w ! s)"
    by simp_all
  with Cons.prems(3) have "ended (pc (sims w1 ! s))" by simp
  from Cons.IH [OF r 1(1) this] 1 show ?case by simp
qed

lemma build_failed_run:
  "run [Call_create_sim, Step 0, Step 0, Step 0, Step 0, Raise 0] world_init = Some build_failed"
  by (simp add: eval_simps build_failed_def)

text \<open>
  Claim C5, as stated, fails in its first half: when the simulator factory raises at line
  35 the thread of \<^verbatim>\<open>runner\<close> ends there, line 41 is never run, and the lock stays locked;
  a later \<^verbatim>\<open>create_sim\<close> does not return.
\<close>

theorem build_failure_leaves_lock_held:
  "run [Call_create_sim, Step 0, Step 0, Step 0, Step 0] world_init = Some one_started \<and>
   pc (sims one_started ! 0) = Build \<and>
   exec (Raise 0) one_started = Some build_failed \<and>
   pc (sims build_failed ! 0) = Raised Build \<and>
   exec (Step 0) build_failed = None \<and> exec (Raise 0) build_failed = None \<and>
   lock (the_viz build_failed) \<and> create_sim build_failed = None"
proof -
  have "lock (the_viz build_failed)" by (simp add: build_failed_def)
  moreover from this have "create_sim build_failed = None" by (rule create_sim_blocks)
  moreover have "exec (Raise 0) one_started = Some build_failed"
    by (simp add: raises_def one_started_def build_failed_def)
  moreover have "exec (Step 0) build_failed = None" "exec (Raise 0) build_failed = None"
    by (simp_all add: step_def stmt_def raises_def build_failed_def)
  moreover have "pc (sims one_started ! 0) = Build" "pc (sims build_failed ! 0) = Raised Build"
    by (simp_all add: one_started_def build_failed_def)
  ultimately show ?thesis using one_started_run by simp
qed

text \<open>
  Claim C5, amended. Once the simulator factory of a session has raised at line 35, in
  every later state the build lock is still locked, on behalf of that session and no other,
  so that \<^verbatim>\<open>create_sim\<close> does not return; the session stays where the exception left it, in
  the building state, without a simulator, with no component undone: it never enters the
  run loop.
\<close>

theorem build_failure_never_runs:
  assumes "run as world_init = Some w" and "s < length (sims w)"
    and "pc (sims w ! s) = Raised Build" and "run bs w = Some w'"
  shows "lock (the_viz w') \<and> holder w' s \<and> (\<forall>t. holder w' t \<longrightarrow> t = s) \<and> create_sim w' = None \<and>
         pc (sims w' ! s) = Raised Build \<and> building (sims w' ! s) \<and> sim (sims w' ! s) = None \<and>
         undone (sims w' ! s) = []"
proof -
  from assms(1) have "sound w" by (rule reachable_sound)
  with assms(2,3) have w: "building (sims w ! s)" "sim (sims w ! s) = None"
    "undone (sims w ! s) = []"
    by (auto simp: sound_def)
  from assms(3) have "ended (pc (sims w ! s))" by simp
  from ended_run [OF assms(4,2) this] w assms(3) have w': "s < length (sims w')"
    "pc (sims w' ! s) = Raised Build" "building (sims w' ! s)" "sim (sims w' ! s) = None"
    "undone (sims w' ! s) = []"
    by simp_all
  then have h: "holder w' s" by (simp add: holder_def)
  from assms(1,4) have "run (as @ bs) world_init = Some w'" by (simp add: run_append)
  then have "sound w'" by (rule reachable_sound)
  with h have "lock (the_viz w')" "\<forall>t. holder w' t \<longrightarrow> t = s"
    by (auto simp: sound_def mutex_def)
  with h w' create_sim_blocks [of w'] show ?thesis by blast
qed

theorem build_failure_never_runs_witness:
  "run [Call_create_sim, Step 0, Step 0, Step 0, Step 0, Raise 0] world_init = Some build_failed \<and>
   pc (sims build_failed ! 0) = Raised Build \<and>
   run [Call_create_sim, Call_finish 0] build_failed \<noteq> None \<and>
   lock (the_viz (the (run [Call_create_sim, Call_finish 0] build_failed))) \<and>
   building (sims (the (run [Call_create_sim, Call_finish 0] build_failed)) ! 0) \<and>
   create_sim (the (run [Call_create_sim, Call_finish 0] build_failed)) = None"
proof -
  have p: "pc (sims build_failed ! 0) = Raised Build" "0 < length (sims build_failed)"
    by (simp_all add: build_failed_def)
  have "run [Call_create_sim, Call_finish 0] build_failed \<noteq> None"
    by (simp add: build_failed_def)
  then obtain w' where r: "run [Call_create_sim, Call_finish 0] build_failed = Some w'"
    by blast
  from build_failure_never_runs [OF build_failed_run p(2,1) r]
  have "lock (the_viz w') \<and> building (sims w' ! 0) \<and> create_sim w' = None"
    by simp
  with p build_failed_run show ?thesis unfolding r by simp
qed

subsection \<open>Cooperative stop\<close>













subsection \<open>Configuration calls\<close>

lemma stmt_constructed:
  assumes "stmt n s z v = Some (z', v', n')" and "constructed (pc v)"
  shows "constructed (pc v') \<and> components v' = components v"
  using assms
  by (cases "pc v") (auto simp: stmt_def Let_def split: if_splits option.splits)

lemma raises_constructed:
  assumes "raises z v = Some v'" and "constructed (pc v)"
  shows "constructed (pc v') \<and> components v' = components v"
  using assms by (cases "pc v") (auto simp: raises_def split: if_splits)

lemma exec_constructed:
  assumes "exec a w = Some w'" and "s < length (sims w)" and "constructed (pc (sims w ! s))"
  shows "s < length (sims w') \<and> constructed (pc (sims w' ! s)) \<and>
         components (sims w' ! s) = components (sims w ! s)"
proof (cases a)
  case (Step t)
  with assms(1) obtain z v n where t: "t < length (sims w)"
    and st: "stmt (next_ident w) t (the_viz w) (sims w ! t) = Some (z, v, n)"
    and w': "w' = w\<lparr>the_viz := z, sims := (sims w)[t := v], next_ident := n\<rparr>"
    using step_sims by fastforce
  show ?thesis
  proof (cases "t = s")
    case True
    with st assms(3) have "constructed (pc v) \<and> components v = components (sims w ! s)"
      using stmt_constructed by blast
    with True w' assms(2) show ?thesis by simp
  next
    case False
    with w' assms(2,3) show ?thesis by simp
  qed
next
  case (Raise t)
  with assms(1) obtain v where t: "t < length (sims w)"
    and r: "raises (the_viz w) (sims w ! t) = Some v"
    and w': "w' = w\<lparr>sims := (sims w)[t := v]\<rparr>"
    by (auto split: if_splits option.splits)
  show ?thesis
  proof (cases "t = s")
    case True
    with r assms(3) have "constructed (pc v) \<and> components v = components (sims w ! s)"
      using raises_constructed by blast
    with True w' assms(2) show ?thesis by simp
  next
    case False
    with w' assms(2,3) show ?thesis by simp
  qed
next
  case (Call_finish t)
  with assms show ?thesis
    by (cases "t = s") (auto simp: finish_def split: if_splits)
next
  case (Call_slider args kwargs)
  with assms show ?thesis by auto
next
  case (Call_value args kwargs)
  with assms show ?thesis by auto
next
  case Call_create_sim
  with assms show ?thesis by (auto simp: nth_append)
next
  case (Call_pop_component i)
  with assms show ?thesis by (cases "pop_component (the_viz w) i") auto
qed

lemma run_constructed:
  assumes "run bs w = Some w'" and "s < length (sims w)" and "constructed (pc (sims w ! s))"
  shows "s < length (sims w') \<and> constructed (pc (sims w' ! s)) \<and>
         components (sims w' ! s) = components (sims w ! s)"
  using assms
proof (induction bs arbitrary: w)
  case Nil
  then show ?case by simp
next
  case (Cons a bs)
  from Cons.prems(1) obtain w1 where a: "exec a w = Some w1" and r: "run bs w1 = Some w'"
    by (auto split: option.splits)
  from exec_constructed [OF a Cons.prems(2,3)] have 1: "s < length (sims w1)"
    "constructed (pc (sims w1 ! s))" "components (sims w1 ! s) = components (sims w ! s)"
    by simp_all
  from Cons.IH [OF r 1(1,2)] 1(3) show ?case by simp
qed

lemma configured_later_run:
  "run [Call_slider [PyStr ''node''] [], Step 0] one_started = Some configured_later"
  by (simp add: eval_simps one_started_def configured_later_def)

text \<open>
  Claim C8. \<^verbatim>\<open>slider\<close> and \<^verbatim>\<open>value\<close> return \<^verbatim>\<open>None\<close> and append exactly one entry, of their own
  kind and with the arguments given, to the template, changing nothing else of the
  organizer; as actions of the process they leave the list of sessions as it is. The
  component list of a session whose loop over the template is over is never changed again,
  whatever is done afterwards: configuration calls, other sessions, its own runner.
\<close>

theorem configuration_appends_one:
  "slider z args kwargs = (PyNone, z\<lparr>template := template z @ [(Slider, args, kwargs)]\<rparr>) \<and>
   value_graph z args kwargs = (PyNone, z\<lparr>template := template z @ [(Value, args, kwargs)]\<rparr>) \<and>
   length (template (snd (slider z args kwargs))) = Suc (length (template z)) \<and>
   length (template (snd (value_graph z args kwargs))) = Suc (length (template z)) \<and>
   (\<exists>w'. exec (Call_slider args kwargs) w = Some w' \<and> sims w' = sims w \<and>
      the_viz w' = snd (slider (the_viz w) args kwargs)) \<and>
   (\<exists>w'. exec (Call_value args kwargs) w = Some w' \<and> sims w' = sims w \<and>
      the_viz w' = snd (value_graph (the_viz w) args kwargs)) \<and>
   (s < length (sims w) \<and> constructed (pc (sims w ! s)) \<and> run bs w = Some w' \<longrightarrow>
      s < length (sims w') \<and> components (sims w' ! s) = components (sims w ! s))"
  using run_constructed [of bs w w' s] by (simp add: slider_def value_graph_def)

theorem configuration_appends_one_witness:
  "constructed (pc (sims one_started ! 0)) \<and>
   run [Call_slider [PyStr ''node''] [], Step 0] one_started = Some configured_later \<and>
   length (template (the_viz configured_later)) = Suc (length (template (the_viz one_started))) \<and>
   components (sims configured_later ! 0) = components (sims one_started ! 0)"
proof -
  have c: "constructed (pc (sims one_started ! 0))" "0 < length (sims one_started)"
    "length (template (the_viz configured_later)) = Suc (length (template (the_viz one_started)))"
    by (simp_all add: one_started_def configured_later_def)
  from configuration_appends_one [of _ _ _ one_started 0
      "[Call_slider [PyStr ''node''] [], Step 0]" configured_later] c configured_later_run
  have "components (sims configured_later ! 0) = components (sims one_started ! 0)"
    by blast
  with c configured_later_run show ?thesis by blast
qed

subsection \<open>Registration\<close>











subsection \<open>Template fidelity of a new session\<close>











subsection \<open>Claiming a component\<close>







end
